theory Spec2Isabelle
  imports Main
begin

section \<open>The ring buffer of ringBuff.go\<close>

text \<open>
  A shallow embedding of \<^verbatim>\<open>src/ringBuff.go\<close> (package ring). The buffer is a record
  of the fields of the Go struct; every method takes the record and, when it assigns to
  a field, returns the updated record. The read/write mutex is left out: the model is
  of one caller at a time, so the exported methods that only take the lock and call the
  unexported one (\<open>Push\<close>, \<open>GetById\<close>) are the same function here.

  Go's \<open>int\<close> is modelled as the unbounded \<open>int\<close> of HOL. The cursors move by one per
  inserted item, so a run reaches the end of the 64 bit range only after that many
  insertions; identifiers passed by a caller are taken to lie below it as well.
  A value of type \<open>interface{}\<close> is a \<open>'v option\<close>, with \<open>None\<close> for \<open>nil\<close>.
\<close>

subsection \<open>The Go primitives the file uses\<close>

text \<open>
  Run-time panics of the operators and built-in functions that the source calls. A method
  that panics returns \<open>Inl\<close> of the panic, and no buffer: the run ends there.
\<close>

datatype panic = DivideByZero | IndexOutOfRange | MakesliceLenOutOfRange

text \<open>
  The remainder operator \<open>x % y\<close> of Go: it panics when \<open>y\<close> is zero, and otherwise
  truncates towards zero, so that the result has the sign of \<open>x\<close> (\<open>-1 % 3\<close> is \<open>-1\<close>).
\<close>

definition go_rem :: "int \<Rightarrow> int \<Rightarrow> panic + int" where
  "go_rem x y = (if y = 0 then Inl DivideByZero else Inr (sgn x * (\<bar>x\<bar> mod \<bar>y\<bar>)))"

text \<open>
  \<open>make([]interface{}, n)\<close>: a slice of \<open>n\<close> nil values. The run-time panics
  ("makeslice: len out of range") for a negative length and for a length above the
  largest that it allocates for such a slice. That limit belongs to the run-time and
  the platform, not to the repository: it is the parameter \<open>maxLen\<close>, handed on by
  the two methods that call \<open>make\<close>.
\<close>

definition go_make :: "nat \<Rightarrow> int \<Rightarrow> panic + 'v option list" where
  "go_make maxLen n =
     (if n < 0 \<or> int maxLen < n then Inl MakesliceLenOutOfRange
      else Inr (replicate (nat n) None))"

text \<open>Reading \<open>s[i]\<close> and assigning \<open>s[i] = v\<close>: an index outside the slice panics.\<close>

definition slice_get :: "'a list \<Rightarrow> int \<Rightarrow> panic + 'a" where
  "slice_get s i = (if 0 \<le> i \<and> i < int (length s) then Inr (s ! nat i) else Inl IndexOutOfRange)"

definition slice_set :: "'a list \<Rightarrow> int \<Rightarrow> 'a \<Rightarrow> panic + 'a list" where
  "slice_set s i v = (if 0 \<le> i \<and> i < int (length s) then Inr (s[nat i := v]) else Inl IndexOutOfRange)"

subsection \<open>The buffer and its errors\<close>

text \<open>The struct \<open>Buff\<close>, without its mutex.\<close>

record 'v Buff =
  buff :: "'v option list"
  count :: int
  oldest :: int
  newest :: int

text \<open>
  The errors that the methods return, one constructor for each call of \<open>errors.Errorf\<close>,
  with the arguments that the call formats into its message, in the order of the call:
  \<^item> \<open>StaleId val\<close>: "Did not upsert value %+v; id is older than first tracked";
  \<^item> \<open>IdTooOld id n\<close>: "requested ID %d is lower than oldest id %d";
  \<^item> \<open>IdTooNew id n\<close>: "requested id %d is higher than most recent id %d";
  \<^item> \<open>IndexOutOfBounds i\<close>: "Could not get item at index %d: index out of bounds";
  \<^item> \<open>RequestedIdTooNew id n\<close>: "requested ID %d is higher than the newest id %d".
\<close>

datatype 'v err =
    StaleId "'v option"
  | IdTooOld int int
  | IdTooNew int int
  | IndexOutOfBounds int
  | RequestedIdTooNew int int

subsection \<open>The methods\<close>

definition NewBuff :: "nat \<Rightarrow> int \<Rightarrow> panic + 'v Buff" where
  "NewBuff maxLen n =
     (case go_make maxLen n of
        Inl p \<Rightarrow> Inl p
      | Inr b \<Rightarrow> Inr \<lparr>buff = b, count = n, oldest = 0, newest = - 1\<rparr>)"

definition GetNewestId :: "'v Buff \<Rightarrow> int" where
  "GetNewestId rb = newest rb"

definition GetOldestId :: "'v Buff \<Rightarrow> int" where
  "GetOldestId rb = oldest rb"


text \<open>The helper \<open>next\<close>: it moves the newest marker, and the oldest one once the buffer is full.\<close>

definition next_rb :: "'v Buff \<Rightarrow> 'v Buff" where
  "next_rb rb =
     (let rb1 = rb\<lparr>newest := newest rb + 1\<rparr>
      in if newest rb1 \<ge> count rb1 then rb1\<lparr>oldest := oldest rb1 + 1\<rparr> else rb1)"

definition push :: "'v Buff \<Rightarrow> 'v option \<Rightarrow> panic + 'v Buff" where
  "push rb val =
     (let rb1 = next_rb rb
      in case go_rem (newest rb1) (count rb1) of
           Inl p \<Rightarrow> Inl p
         | Inr k \<Rightarrow>
             (case slice_set (buff rb1) k val of
                Inl p \<Rightarrow> Inl p
              | Inr b \<Rightarrow> Inr (rb1\<lparr>buff := b\<rparr>)))"

definition Push :: "'v Buff \<Rightarrow> 'v option \<Rightarrow> panic + 'v Buff" where
  "Push rb val = push rb val"

text \<open>
  The loop of \<open>UpsertById\<close>, \<open>for i := firstEmptyID; i <= newId; i++ { rb.push(nil) }\<close>,
  from the value of \<open>i\<close> on.
\<close>

function UpsertById_loop :: "'v Buff \<Rightarrow> int \<Rightarrow> int \<Rightarrow> panic + 'v Buff" where
  "UpsertById_loop rb i newId =
     (if i \<le> newId
      then (case push rb None of
              Inl p \<Rightarrow> Inl p
            | Inr rb1 \<Rightarrow> UpsertById_loop rb1 (i + 1) newId)
      else Inr rb)"
  by pat_completeness auto
termination
  by (relation "measure (\<lambda>(rb, i, newId). nat (newId + 1 - i))") auto

text \<open>
  \<open>UpsertById\<close> returns an error or nil, and leaves the buffer as the second component
  says.
\<close>

definition UpsertById :: "'v Buff \<Rightarrow> int \<Rightarrow> 'v option \<Rightarrow> panic + ('v err option \<times> 'v Buff)" where
  "UpsertById rb newId val =
     (if oldest rb > newId then Inr (Some (StaleId val), rb)
      else
        let firstEmptyID = newest rb + 1
        in case UpsertById_loop rb firstEmptyID newId of
             Inl p \<Rightarrow> Inl p
           | Inr rb1 \<Rightarrow>
               (case go_rem newId (count rb1) of
                  Inl p \<Rightarrow> Inl p
                | Inr index \<Rightarrow>
                    (case slice_set (buff rb1) index val of
                       Inl p \<Rightarrow> Inl p
                     | Inr b \<Rightarrow> Inr (None, rb1\<lparr>buff := b\<rparr>))))"

definition Get :: "'v Buff \<Rightarrow> panic + 'v option" where
  "Get rb =
     (case go_rem (newest rb) (count rb) of
        Inl p \<Rightarrow> Inl p
      | Inr mostRecentIndex \<Rightarrow> slice_get (buff rb) mostRecentIndex)"

text \<open>
  \<open>getById\<close> returns a value and a nil error, or a nil value and an error. The two
  messages name one bound and print the other: the arguments are as the source has them.
\<close>

definition getById :: "'v Buff \<Rightarrow> int \<Rightarrow> panic + ('v err + 'v option)" where
  "getById rb i =
     (if i < oldest rb then Inr (Inl (IdTooOld i (newest rb)))
      else if i > newest rb then Inr (Inl (IdTooNew i (oldest rb)))
      else case go_rem i (count rb) of
             Inl p \<Rightarrow> Inl p
           | Inr k \<Rightarrow>
               (case slice_get (buff rb) k of
                  Inl p \<Rightarrow> Inl p
                | Inr v \<Rightarrow> Inr (Inr v)))"

definition GetById :: "'v Buff \<Rightarrow> int \<Rightarrow> panic + ('v err + 'v option)" where
  "GetById rb i = getById rb i"

definition GetByIndex :: "'v Buff \<Rightarrow> int \<Rightarrow> panic + ('v err + 'v option)" where
  "GetByIndex rb i =
     (if i < 0 \<or> i \<ge> count rb then Inr (Inl (IndexOutOfBounds i))
      else case slice_get (buff rb) i of
             Inl p \<Rightarrow> Inl p
           | Inr v \<Rightarrow> Inr (Inr v))"

text \<open>
  The loop of \<open>GetNewerById\<close>, from the value of \<open>i\<close> on. The error of \<open>getById\<close> is
  dropped and its nil value stored; a panic is not an error and is not dropped.
\<close>

function GetNewerById_loop :: "'v Buff \<Rightarrow> int \<Rightarrow> int \<Rightarrow> 'v option list \<Rightarrow> panic + 'v option list" where
  "GetNewerById_loop rb i0 i lst =
     (if i \<le> newest rb
      then (case getById rb i of
              Inl p \<Rightarrow> Inl p
            | Inr r \<Rightarrow>
                (case slice_set lst (i - i0 - 1) (case r of Inl e \<Rightarrow> None | Inr v \<Rightarrow> v) of
                   Inl p \<Rightarrow> Inl p
                 | Inr lst1 \<Rightarrow> GetNewerById_loop rb i0 (i + 1) lst1))
      else Inr lst)"
  by pat_completeness auto
termination
  by (relation "measure (\<lambda>(rb, i0, i, lst). nat (newest rb + 1 - i))") auto


subsection \<open>Sequences of calls, and the states they reach\<close>

text \<open>\<open>Push\<close> called with each value of a list in turn; a panic ends the run.\<close>

fun pushes :: "'v Buff \<Rightarrow> 'v option list \<Rightarrow> panic + 'v Buff" where
  "pushes rb [] = Inr rb"
| "pushes rb (v # vs) = (case Push rb v of Inl p \<Rightarrow> Inl p | Inr rb1 \<Rightarrow> pushes rb1 vs)"

text \<open>
  A call of one of the two methods that assign to the buffer, and the buffer it leaves.
  An \<open>UpsertById\<close> that returns its error leaves a buffer too, and the run goes on.
\<close>

datatype 'v call = CallPush "'v option" | CallUpsertById int "'v option"

fun run_call :: "'v Buff \<Rightarrow> 'v call \<Rightarrow> panic + 'v Buff" where
  "run_call rb (CallPush v) = Push rb v"
| "run_call rb (CallUpsertById i v) =
     (case UpsertById rb i v of Inl p \<Rightarrow> Inl p | Inr (e, rb1) \<Rightarrow> Inr rb1)"

fun run_calls :: "'v Buff \<Rightarrow> 'v call list \<Rightarrow> panic + 'v Buff" where
  "run_calls rb [] = Inr rb"
| "run_calls rb (x # xs) = (case run_call rb x of Inl p \<Rightarrow> Inl p | Inr rb1 \<Rightarrow> run_calls rb1 xs)"

text \<open>
  What holds of the fields of every buffer that \<open>NewBuff\<close> builds and that calls of
  \<open>Push\<close> and \<open>UpsertById\<close> reach from there (lemma \<open>reachable_invar\<close> below): \<open>count\<close>
  is the length of the slice, \<open>newest\<close> starts at \<open>-1\<close> and grows, and \<open>oldest\<close> is
  determined by \<open>newest\<close> and \<open>count\<close>. The theorems about "every buffer state" are
  stated for the records that satisfy it. The slice of such a buffer was allocated by
  \<open>make\<close>, so \<open>count\<close> is also at most the limit \<open>maxLen\<close> of the run; only
  \<open>GetNewerById\<close>, which calls \<open>make\<close> again, depends on that.
\<close>

definition invar :: "'v Buff \<Rightarrow> bool" where
  "invar rb \<longleftrightarrow>
     count rb = int (length (buff rb)) \<and> - 1 \<le> newest rb \<and>
     oldest rb = max 0 (newest rb + 1 - count rb)"


subsection \<open>Example buffers\<close>

text \<open>
  A limit of \<open>make\<close> for the examples: what a run-time with \<open>2 ^ 48\<close> bytes of heap
  addresses allocates at most for values of 16 bytes.
\<close>

definition maxLen64 :: nat where
  "maxLen64 = 2 ^ 44"

text \<open>The buffer of capacity 3 after \<open>Push\<close> of A, B, C and D.\<close>

definition abcd :: "string Buff" where
  "abcd = \<lparr>buff = [Some ''D'', Some ''B'', Some ''C''], count = 3, oldest = 1, newest = 3\<rparr>"


definition empty2 :: "string Buff" where
  "empty2 = \<lparr>buff = [None, None], count = 2, oldest = 0, newest = - 1\<rparr>"

definition empty0 :: "'v Buff" where
  "empty0 = \<lparr>buff = [], count = 0, oldest = 0, newest = - 1\<rparr>"



section \<open>Properties\<close>

subsection \<open>Auxiliary facts\<close>

text \<open>
  The two loops are unfolded by hand, one iteration at a time. \<open>eval_defs\<close> are the
  equations that evaluate the methods on a given buffer.
\<close>

declare UpsertById_loop.simps [simp del] GetNewerById_loop.simps [simp del]


lemma go_rem_nonneg: "0 \<le> x \<Longrightarrow> 0 < y \<Longrightarrow> go_rem x y = Inr (x mod y)"
  by (simp add: go_rem_def sgn_if)


lemma invar_count_pos: "invar rb \<Longrightarrow> oldest rb \<le> newest rb \<Longrightarrow> 0 < count rb"
  by (auto simp: invar_def max_def split: if_splits)

lemma invar_oldest_nonneg: "invar rb \<Longrightarrow> 0 \<le> oldest rb"
  by (simp add: invar_def)


lemma push_result:
  assumes "invar rb" "0 < count rb"
  shows "push rb v = Inr \<lparr>buff = (buff rb)[nat ((newest rb + 1) mod count rb) := v],
      count = count rb, oldest = max 0 (newest rb + 2 - count rb), newest = newest rb + 1\<rparr>"
  using assms
  by (auto simp: push_def next_rb_def Let_def invar_def go_rem_nonneg slice_set_def max_def)

lemma push_props:
  assumes "invar rb" "0 < count rb"
  shows "\<exists>rb'. push rb v = Inr rb' \<and> invar rb' \<and> count rb' = count rb \<and>
     newest rb' = newest rb + 1 \<and> buff rb' = (buff rb)[nat ((newest rb + 1) mod count rb) := v]"
  using assms by (simp add: push_result) (simp add: invar_def)

lemma nth_slot_update:
  assumes "invar rb" "0 < count rb"
  shows "(buff rb)[nat (j mod count rb) := v] ! nat (k mod count rb) =
     (if j mod count rb = k mod count rb then v else buff rb ! nat (k mod count rb))"
proof -
  have "nat (k mod count rb) < length (buff rb)" "nat (j mod count rb) < length (buff rb)"
    using assms by (simp_all add: invar_def nat_less_iff)
  moreover have "nat (j mod count rb) = nat (k mod count rb) \<longleftrightarrow> j mod count rb = k mod count rb"
    using assms(2) by (simp add: nat_eq_iff)
  ultimately show ?thesis by (simp add: nth_list_update)
qed


lemma UpsertById_loop_result:
  assumes "invar rb" "0 < count rb"
  shows "\<exists>rb'. UpsertById_loop rb (newest rb + 1) newId = Inr rb' \<and> invar rb' \<and>
     count rb' = count rb \<and> newest rb' = max (newest rb) newId \<and>
     (\<forall>k. buff rb' ! nat (k mod count rb) =
        (if \<exists>j. newest rb < j \<and> j \<le> newId \<and> j mod count rb = k mod count rb then None
         else buff rb ! nat (k mod count rb)))"
  using assms
proof (induction "nat (newId - newest rb)" arbitrary: rb)
  case 0
  then have "newId \<le> newest rb" by simp
  then show ?case using 0 by (subst UpsertById_loop.simps) auto
next
  case (Suc n)
  then have lt: "newest rb < newId" by simp
  obtain rb1 where rb1: "push rb None = Inr rb1" "invar rb1" "count rb1 = count rb"
    "newest rb1 = newest rb + 1" "buff rb1 = (buff rb)[nat ((newest rb + 1) mod count rb) := None]"
    using push_props [OF Suc.prems] by blast
  have "n = nat (newId - newest rb1)" using Suc.hyps(2) rb1(4) by simp
  moreover have "0 < count rb1" using Suc.prems(2) rb1(3) by simp
  ultimately obtain rb' where ih: "UpsertById_loop rb1 (newest rb1 + 1) newId = Inr rb' \<and> invar rb' \<and>
     count rb' = count rb1 \<and> newest rb' = max (newest rb1) newId \<and>
     (\<forall>k. buff rb' ! nat (k mod count rb1) =
        (if \<exists>j. newest rb1 < j \<and> j \<le> newId \<and> j mod count rb1 = k mod count rb1 then None
         else buff rb1 ! nat (k mod count rb1)))"
    using Suc.hyps(1) [of rb1] rb1(2) by blast
  from ih [unfolded rb1(3)]
  have rb': "UpsertById_loop rb1 (newest rb1 + 1) newId = Inr rb'" "invar rb'"
    "count rb' = count rb" "newest rb' = max (newest rb1) newId"
    "\<And>k. buff rb' ! nat (k mod count rb) =
        (if \<exists>j. newest rb1 < j \<and> j \<le> newId \<and> j mod count rb = k mod count rb then None
         else buff rb1 ! nat (k mod count rb))"
    by blast+
  have run: "UpsertById_loop rb (newest rb + 1) newId = Inr rb'"
    using lt rb1 rb'(1) by (subst UpsertById_loop.simps) simp
  have slots: "buff rb' ! nat (k mod count rb) =
        (if \<exists>j. newest rb < j \<and> j \<le> newId \<and> j mod count rb = k mod count rb then None
         else buff rb ! nat (k mod count rb))" for k
  proof (cases "\<exists>j. newest rb1 < j \<and> j \<le> newId \<and> j mod count rb = k mod count rb")
    case True
    then obtain j where "newest rb1 < j" "j \<le> newId" "j mod count rb = k mod count rb" by blast
    then have "\<exists>j. newest rb < j \<and> j \<le> newId \<and> j mod count rb = k mod count rb"
      using rb1(4) by (intro exI [of _ j]) simp
    then show ?thesis using True rb'(5) [of k] by (simp only: if_True)
  next
    case False
    then have eq: "buff rb' ! nat (k mod count rb) = buff rb1 ! nat (k mod count rb)"
      using rb'(5) [of k] by (simp only: if_False)
    show ?thesis
    proof (cases "(newest rb + 1) mod count rb = k mod count rb")
      case True
      then have "\<exists>j. newest rb < j \<and> j \<le> newId \<and> j mod count rb = k mod count rb"
        using lt by (intro exI [of _ "newest rb + 1"]) simp
      moreover have "buff rb' ! nat (k mod count rb) = None"
        using True eq rb1(5) nth_slot_update [OF Suc.prems, of "newest rb + 1" None k] by simp
      ultimately show ?thesis by (simp only: if_True)
    next
      case neq: False
      have "\<not> (\<exists>j. newest rb < j \<and> j \<le> newId \<and> j mod count rb = k mod count rb)"
      proof
        assume "\<exists>j. newest rb < j \<and> j \<le> newId \<and> j mod count rb = k mod count rb"
        then obtain j where j: "newest rb < j" "j \<le> newId" "j mod count rb = k mod count rb"
          by blast
        show False
        proof (cases "j = newest rb + 1")
          case True
          with j(3) neq show False by simp
        next
          case False
          with j rb1(4) have "newest rb1 < j \<and> j \<le> newId \<and> j mod count rb = k mod count rb"
            by simp
          with \<open>\<not> (\<exists>j. newest rb1 < j \<and> j \<le> newId \<and> j mod count rb = k mod count rb)\<close>
          show False by blast
        qed
      qed
      moreover have "buff rb' ! nat (k mod count rb) = buff rb ! nat (k mod count rb)"
        using neq eq rb1(5) nth_slot_update [OF Suc.prems, of "newest rb + 1" None k] by simp
      ultimately show ?thesis by (simp only: if_False)
    qed
  qed
  have "newest rb' = max (newest rb) newId" using rb'(4) rb1(4) lt by simp
  with run rb'(2,3) slots show ?case by blast
qed


lemma invar_oldest_mono:
  "invar a \<Longrightarrow> invar b \<Longrightarrow> count a = count b \<Longrightarrow> newest a \<le> newest b \<Longrightarrow> oldest a \<le> oldest b"
  by (auto simp: invar_def max_def)

lemma invar_buff_update: "invar rb \<Longrightarrow> invar (rb\<lparr>buff := (buff rb)[n := v]\<rparr>)"
  by (simp add: invar_def)

lemma UpsertById_result:
  assumes "invar rb" "0 < count rb" "oldest rb \<le> i"
  shows "\<exists>rb'. UpsertById rb i v = Inr (None, rb') \<and> invar rb' \<and>
     count rb' = count rb \<and> newest rb' = max (newest rb) i \<and>
     (\<forall>k. buff rb' ! nat (k mod count rb) =
        (if k mod count rb = i mod count rb then v
         else if \<exists>j. newest rb < j \<and> j \<le> i \<and> j mod count rb = k mod count rb then None
         else buff rb ! nat (k mod count rb)))"
proof -
  obtain rb1 where rb1: "UpsertById_loop rb (newest rb + 1) i = Inr rb1" "invar rb1"
     "count rb1 = count rb" "newest rb1 = max (newest rb) i"
     "\<And>k. buff rb1 ! nat (k mod count rb) =
        (if \<exists>j. newest rb < j \<and> j \<le> i \<and> j mod count rb = k mod count rb then None
         else buff rb ! nat (k mod count rb))"
    using UpsertById_loop_result [OF assms(1,2), of i] by blast
  define rb' where "rb' = rb1\<lparr>buff := (buff rb1)[nat (i mod count rb) := v]\<rparr>"
  have "0 \<le> i" using assms(1,3) invar_oldest_nonneg [of rb] by simp
  moreover have "i mod count rb < int (length (buff rb1))"
    using rb1(2,3) assms(2) by (simp add: invar_def)
  ultimately have run: "UpsertById rb i v = Inr (None, rb')"
    using assms(2,3) rb1(1,3)
    by (simp add: UpsertById_def go_rem_nonneg slice_set_def rb'_def)
  have inv: "invar rb'" unfolding rb'_def using rb1(2) by (rule invar_buff_update)
  have c1: "0 < count rb1" using rb1(3) assms(2) by simp
  have slots: "buff rb' ! nat (k mod count rb) =
        (if k mod count rb = i mod count rb then v
         else if \<exists>j. newest rb < j \<and> j \<le> i \<and> j mod count rb = k mod count rb then None
         else buff rb ! nat (k mod count rb))" for k
    using nth_slot_update [OF rb1(2) c1, of i v k] rb1(3) rb1(5) [of k]
    by (simp add: rb'_def eq_commute [of "i mod count rb"])
  have "count rb' = count rb" "newest rb' = max (newest rb) i"
    using rb1(3,4) by (simp_all add: rb'_def)
  with run inv slots show ?thesis by blast
qed


lemma UpsertById_count_zero:
  assumes "invar rb" "count rb = 0" "oldest rb \<le> i"
  shows "UpsertById rb i v = Inl DivideByZero"
proof -
  have "newest rb < i" using assms by (simp add: invar_def max_def split: if_splits)
  moreover have "push rb None = Inl DivideByZero"
    using assms(2) by (simp add: push_def next_rb_def go_rem_def Let_def)
  ultimately have "UpsertById_loop rb (newest rb + 1) i = Inl DivideByZero"
    by (subst UpsertById_loop.simps) simp
  then show ?thesis using assms(3) by (simp add: UpsertById_def)
qed


text \<open>
  \<open>Get\<close> on a buffer that holds an entry, and on one that holds none: the second
  returns nil only when the capacity is 1.
\<close>

lemma Get_on_nonempty:
  assumes "invar rb" "oldest rb \<le> newest rb"
  shows "Get rb = Inr (buff rb ! nat (newest rb mod count rb))"
proof -
  have "0 < count rb" using assms by (rule invar_count_pos)
  moreover have "0 \<le> newest rb" using assms invar_oldest_nonneg [of rb] by simp
  moreover have "newest rb mod count rb < int (length (buff rb))"
    using assms(1) \<open>0 < count rb\<close> by (simp add: invar_def)
  ultimately show ?thesis by (simp add: Get_def go_rem_nonneg slice_get_def)
qed

lemma Get_on_empty:
  assumes "newest rb = - 1"
  shows "Get rb = (if count rb = 0 then Inl DivideByZero
     else if \<bar>count rb\<bar> = 1 then slice_get (buff rb) 0 else Inl IndexOutOfRange)"
proof -
  have "(1::int) mod \<bar>count rb\<bar> = 1" if "count rb \<noteq> 0" "\<bar>count rb\<bar> \<noteq> 1"
    using that by (intro mod_pos_pos_trivial) auto
  then show ?thesis
    using assms by (auto simp: Get_def go_rem_def slice_get_def)
qed

text \<open>The errors of \<open>getById\<close>, with the field that each of them carries.\<close>

lemma getById_too_old: "i < oldest rb \<Longrightarrow> getById rb i = Inr (Inl (IdTooOld i (newest rb)))"
  by (simp add: getById_def)

lemma getById_too_new:
  "oldest rb \<le> i \<Longrightarrow> newest rb < i \<Longrightarrow> getById rb i = Inr (Inl (IdTooNew i (oldest rb)))"
  by (simp add: getById_def)

lemma NewBuff_invar:
  "NewBuff maxLen c = Inr rb \<Longrightarrow>
     invar rb \<and> count rb = c \<and> newest rb = - 1 \<and> oldest rb = 0 \<and> c \<le> int maxLen"
  by (auto simp: NewBuff_def go_make_def invar_def split: if_splits)

lemma run_call_props:
  assumes "invar rb" "0 < count rb"
  shows "\<exists>rb'. run_call rb x = Inr rb' \<and> invar rb' \<and> count rb' = count rb \<and>
    newest rb \<le> newest rb' \<and> oldest rb \<le> oldest rb'"
proof (cases x)
  case (CallPush v)
  obtain rb' where rb': "push rb v = Inr rb'" "invar rb'" "count rb' = count rb"
    "newest rb' = newest rb + 1"
    using push_props [OF assms, of v] by blast
  moreover have "oldest rb \<le> oldest rb'"
    using invar_oldest_mono [OF assms(1) rb'(2)] rb'(3,4) by simp
  ultimately show ?thesis using CallPush by (simp add: Push_def)
next
  case (CallUpsertById i v)
  show ?thesis
  proof (cases "i < oldest rb")
    case True
    then show ?thesis using CallUpsertById assms(1) by (simp add: UpsertById_def)
  next
    case False
    then have "oldest rb \<le> i" by simp
    from UpsertById_result [OF assms this, of v]
    obtain rb' where rb': "UpsertById rb i v = Inr (None, rb')" "invar rb'" "count rb' = count rb"
      "newest rb' = max (newest rb) i"
      by blast
    moreover have "oldest rb \<le> oldest rb'"
      using invar_oldest_mono [OF assms(1) rb'(2)] rb'(3,4) by simp
    ultimately show ?thesis using CallUpsertById by simp
  qed
qed


text \<open>
  Every buffer that \<open>NewBuff\<close> returns, for any capacity, and that calls of \<open>Push\<close>
  and \<open>UpsertById\<close> reach from there satisfies \<open>invar\<close>, and its \<open>count\<close> is within
  the limit of \<open>make\<close>.
\<close>

lemma push_count_zero: "count rb = 0 \<Longrightarrow> push rb v = Inl DivideByZero"
  by (simp add: push_def next_rb_def go_rem_def Let_def)

lemma run_call_invar:
  assumes "invar rb" "run_call rb x = Inr rb'"
  shows "invar rb' \<and> count rb' = count rb"
proof (cases "0 < count rb")
  case True
  then show ?thesis using run_call_props [OF assms(1) True, of x] assms(2) by auto
next
  case False
  then have z: "count rb = 0" using assms(1) by (simp add: invar_def)
  show ?thesis
  proof (cases x)
    case (CallPush v)
    then show ?thesis using assms(2) push_count_zero [OF z, of v]
      by (simp add: Push_def)
  next
    case (CallUpsertById i v)
    show ?thesis
    proof (cases "i < oldest rb")
      case True
      then show ?thesis using CallUpsertById assms by (auto simp: UpsertById_def)
    next
      case False
      then have "UpsertById rb i v = Inl DivideByZero"
        using UpsertById_count_zero [OF assms(1) z, of i v] by simp
      then show ?thesis using CallUpsertById assms(2) by simp
    qed
  qed
qed

lemma run_calls_invar_any:
  "invar rb \<Longrightarrow> run_calls rb xs = Inr rb' \<Longrightarrow> invar rb' \<and> count rb' = count rb"
proof (induction xs arbitrary: rb)
  case Nil
  then show ?case by simp
next
  case (Cons x xs)
  then obtain rb1 where rb1: "run_call rb x = Inr rb1" "run_calls rb1 xs = Inr rb'"
    by (auto split: sum.splits)
  from run_call_invar [OF Cons.prems(1) rb1(1)] Cons.IH [OF _ rb1(2)] show ?case by simp
qed

lemma reachable_invar:
  assumes "NewBuff maxLen c = Inr rb0" "run_calls rb0 xs = Inr rb"
  shows "invar rb \<and> count rb = c \<and> count rb \<le> int maxLen"
proof -
  have "invar rb0 \<and> count rb0 = c \<and> c \<le> int maxLen"
    using NewBuff_invar [OF assms(1)] by simp
  then show ?thesis using run_calls_invar_any [OF _ assms(2)] by simp
qed





subsection \<open>Construction\<close>

text \<open>
  C8 (as amended). \<open>NewBuff\<close> fails, with the panic of \<open>make\<close>, exactly for a capacity
  below zero or above the largest length that the run-time allocates. For every
  capacity from zero, zero included, up to that limit it returns a buffer of that many
  empty slots with \<open>count\<close> the capacity, \<open>oldest = 0\<close> and \<open>newest = -1\<close>.
\<close>

theorem NewBuff_result:
  "(n < 0 \<or> int maxLen < n \<longrightarrow>
      (NewBuff maxLen n :: panic + 'v Buff) = Inl MakesliceLenOutOfRange) \<and>
   (0 \<le> n \<and> n \<le> int maxLen \<longrightarrow>
      (\<exists>rb :: 'v Buff. NewBuff maxLen n = Inr rb \<and> int (length (buff rb)) = n \<and>
        buff rb = replicate (nat n) None \<and> count rb = n \<and> oldest rb = 0 \<and> newest rb = - 1))"
  by (auto simp: NewBuff_def go_make_def)

theorem NewBuff_result_witness:
  "(NewBuff maxLen64 (- 1) :: panic + string Buff) = Inl MakesliceLenOutOfRange \<and>
   (NewBuff maxLen64 (2 ^ 62) :: panic + string Buff) = Inl MakesliceLenOutOfRange \<and>
   (\<exists>rb :: string Buff. NewBuff maxLen64 2 = Inr rb \<and> int (length (buff rb)) = 2 \<and>
        buff rb = replicate (nat 2) None \<and> count rb = 2 \<and> oldest rb = 0 \<and> newest rb = - 1) \<and>
   (\<exists>rb :: string Buff. NewBuff maxLen64 0 = Inr rb \<and> int (length (buff rb)) = 0 \<and>
        buff rb = replicate (nat 0) None \<and> count rb = 0 \<and> oldest rb = 0 \<and> newest rb = - 1)"
proof -
  have lim: "(- 1 :: int) < 0" "int maxLen64 < 2 ^ 62"
    "(0::int) \<le> 2 \<and> 2 \<le> int maxLen64" "(0::int) \<le> 0 \<and> 0 \<le> int maxLen64"
    by (simp_all add: maxLen64_def)
  show ?thesis
    using NewBuff_result [of "- 1" maxLen64, where 'v = string]
      NewBuff_result [of "2 ^ 62" maxLen64, where 'v = string]
      NewBuff_result [of 2 maxLen64, where 'v = string]
      NewBuff_result [of 0 maxLen64, where 'v = string] lim
    by blast
qed

text \<open>
  C8 as the specification states it does not hold: the capacity 0 is not rejected,
  \<open>NewBuff\<close> returns a buffer without slots for it.
\<close>

theorem NewBuff_zero_counterexample:
  "NewBuff maxLen64 0 = Inr empty0"
  by (simp add: NewBuff_def go_make_def empty0_def)

text \<open>
  C10. \<open>NewBuff\<close> with the capacity 0 returns a buffer, whatever the limit of \<open>make\<close>,
  and \<open>Push\<close> of any value on that buffer panics:
  the slot index \<open>rb.newest % rb.count\<close> is a division by zero.
\<close>

theorem Push_NewBuff_zero_panics:
  "NewBuff maxLen 0 = Inr empty0 \<and> Push empty0 v = Inl DivideByZero"
  by (simp add: NewBuff_def go_make_def empty0_def Push_def push_def next_rb_def go_rem_def)

subsection \<open>Reading the newest entry\<close>

text \<open>
  C5 fails on the code. On the buffer that \<open>NewBuff\<close> returns for the capacity 2, \<open>Get\<close> does not return
  nil: \<open>newest\<close> is \<open>-1\<close>, the remainder \<open>-1 % 2\<close> of Go is \<open>-1\<close>, and reading the slice
  at \<open>-1\<close> panics.
\<close>

theorem Get_empty_panics:
  "NewBuff maxLen64 2 = Inr empty2 \<and> Get empty2 = Inl IndexOutOfRange"
  by (simp add: NewBuff_def go_make_def maxLen64_def empty2_def Get_def go_rem_def slice_get_def
      numeral_2_eq_2)

subsection \<open>The errors of getById\<close>

text \<open>
  C9 fails on the code. After four pushes on a buffer of capacity 3 the oldest
  identifier is 1 and the newest is 3; the error for the identifier 0, which is too old,
  carries 3 (the newest), and the error for the identifier 4, which is too new, carries
  1 (the oldest).
\<close>

theorem getById_prints_other_bound:
  "pushes \<lparr>buff = [None, None, None], count = 3, oldest = 0, newest = - 1\<rparr>
      [Some ''A'', Some ''B'', Some ''C'', Some ''D''] = Inr abcd \<and>
   GetOldestId abcd = 1 \<and> GetNewestId abcd = 3 \<and>
   GetById abcd 0 = Inr (Inl (IdTooOld 0 3)) \<and>
   GetById abcd 4 = Inr (Inl (IdTooNew 4 1))"
  by (simp add: Push_def push_def next_rb_def go_rem_def slice_set_def abcd_def
      GetOldestId_def GetNewestId_def GetById_def getById_def)

subsection \<open>UpsertById on an evicted identifier\<close>

text \<open>
  C6. For every buffer and every identifier below \<open>oldest\<close>, \<open>UpsertById\<close> returns the
  error for a stale identifier and the buffer is the one it was called on: \<open>oldest\<close>,
  \<open>newest\<close> and all the slots are as before.
\<close>

theorem UpsertById_stale:
  "i < oldest rb \<Longrightarrow> UpsertById rb i v = Inr (Some (StaleId v), rb)"
  by (simp add: UpsertById_def)

theorem UpsertById_stale_witness:
  "0 < oldest abcd \<and> UpsertById abcd 0 (Some ''Z'') = Inr (Some (StaleId (Some ''Z'')), abcd)"
  using UpsertById_stale [of 0 abcd "Some ''Z''"] by (simp add: abcd_def)

subsection \<open>UpsertById on a tracked or a new identifier\<close>






subsection \<open>Buffers that NewBuff and the two mutating methods reach\<close>



subsection \<open>A sequence of pushes\<close>



subsection \<open>GetNewerById\<close>



end
